theory Spec2Isabelle
  imports Main "HOL-Library.Signed_Division"
begin

section \<open>Values read from the providers' JSON\<close>

text \<open>
  The script of \<^verbatim>\<open>language-salary.py\<close> reads vacancy records that the HTTP client
  decoded from JSON. The fields it consumes hold \<^verbatim>\<open>null\<close>, integers, strings and
  nested objects; these are the values modelled here. A Python \<^verbatim>\<open>dict\<close> is an
  association list read with \<open>map_of\<close>.
\<close>

datatype json = JNull | JInt int | JStr string | JObj "(string \<times> json) list"

text \<open>The exceptions that the modelled functions can raise.\<close>

datatype exn = TypeError | KeyError | OverflowError | ZeroDivisionError | RequestFault

text \<open>Python's \<^verbatim>\<open>bool(x)\<close>: \<^verbatim>\<open>None\<close>, \<^verbatim>\<open>0\<close>, \<^verbatim>\<open>''\<close> and \<^verbatim>\<open>{}\<close> are false.\<close>

fun truthy :: "json \<Rightarrow> bool" where
  "truthy JNull = False"
| "truthy (JInt n) = (n \<noteq> 0)"
| "truthy (JStr s) = (s \<noteq> [])"
| "truthy (JObj kvs) = (kvs \<noteq> [])"

text \<open>
  Python's \<^verbatim>\<open>x[key]\<close> with a string key: a lookup in a \<^verbatim>\<open>dict\<close> (KeyError when the key
  is missing), a TypeError on \<^verbatim>\<open>None\<close>, on an integer and on a string.
\<close>

fun subscript :: "json \<Rightarrow> string \<Rightarrow> exn + json" where
  "subscript (JObj kvs) k = (case map_of kvs k of None \<Rightarrow> Inl KeyError | Some v \<Rightarrow> Inr v)"
| "subscript JNull k = Inl TypeError"
| "subscript (JInt n) k = Inl TypeError"
| "subscript (JStr s) k = Inl TypeError"

section \<open>Double-precision arithmetic of the estimator\<close>

text \<open>
  \<^verbatim>\<open>int(x * 1.2)\<close> and \<^verbatim>\<open>int(y * 0.8)\<close> are computed in IEEE 754 binary64: the
  integer is converted to a double, multiplied by the constant with one rounding to
  nearest (ties to even), and the product is truncated towards zero. A positive finite
  double is the pair \<open>(m, e)\<close> standing for \<open>m * 2 ^ e\<close>. Magnitudes below the
  normal range do not arise: a non-zero integer times either constant is at least
  \<open>0.8\<close>.
\<close>

type_synonym dbl = "int \<times> int"

text \<open>Python's \<^verbatim>\<open>n.bit_length()\<close> of a positive integer.\<close>

function bit_length :: "int \<Rightarrow> nat" where
  "bit_length n = (if n \<le> 0 then 0 else Suc (bit_length (n div 2)))"
  by pat_completeness auto
termination
  by (relation "measure nat") auto

declare bit_length.simps [simp del]

definition round_half_even :: "int \<Rightarrow> nat \<Rightarrow> int" where
  "round_half_even a s =
     (let q = a div 2 ^ s; r = a mod 2 ^ s
      in if 2 ^ s < 2 * r \<or> (2 * r = 2 ^ s \<and> odd q) then q + 1 else q)"

definition fl_round :: "dbl \<Rightarrow> dbl" where
  "fl_round d =
     (case d of (m, e) \<Rightarrow>
        let l = bit_length m
        in if l \<le> 53 then (m, e) else (round_half_even m (l - 53), e + int (l - 53)))"

text \<open>The rounded value is beyond the largest finite double: \<open>2 ^ 1024 \<le> m * 2 ^ e\<close>.\<close>

definition fl_overflow :: "dbl \<Rightarrow> bool" where
  "fl_overflow d = (case d of (m, e) \<Rightarrow> 1024 < int (bit_length m) + e)"

definition fl_trunc :: "dbl \<Rightarrow> int" where
  "fl_trunc d =
     (case d of (m, e) \<Rightarrow>
        if 0 \<le> e then m * 2 ^ nat e else m div 2 ^ nat (- e))"

text \<open>The literals \<^verbatim>\<open>1.2\<close> (\<^verbatim>\<open>0x1.3333333333333p+0\<close>) and \<^verbatim>\<open>0.8\<close> (\<^verbatim>\<open>0x1.999999999999ap-1\<close>).\<close>

definition double_1_2 :: dbl where
  "double_1_2 = (5404319552844595, - 52)"

definition double_0_8 :: dbl where
  "double_0_8 = (7205759403792794, - 53)"

text \<open>
  \<^verbatim>\<open>int(x * c)\<close> for an integer \<open>x\<close> and a positive double \<open>c\<close>. The conversion of
  an integer beyond the double range raises OverflowError, and so does \<^verbatim>\<open>int\<close> of an
  infinite product.
\<close>

definition int_of_product :: "int \<Rightarrow> dbl \<Rightarrow> exn + int" where
  "int_of_product x c =
     (if x = 0 then Inr 0
      else
        let d = fl_round (\<bar>x\<bar>, 0)
        in if fl_overflow d then Inl OverflowError
           else
             let p = fl_round (fst d * fst c, snd d + snd c)
             in if fl_overflow p then Inl OverflowError
                else Inr (sgn x * fl_trunc p))"

section \<open>The salary estimator\<close>

text \<open>\<^verbatim>\<open>(x + y) // 2\<close>: floor division of the sum of two integers.\<close>

fun midpoint :: "json \<Rightarrow> json \<Rightarrow> exn + int option" where
  "midpoint (JInt x) (JInt y) = Inr (Some ((x + y) div 2))"
| "midpoint x y = Inl TypeError"

fun scaled :: "json \<Rightarrow> dbl \<Rightarrow> exn + int option" where
  "scaled (JInt x) c = (case int_of_product x c of Inl err \<Rightarrow> Inl err | Inr v \<Rightarrow> Inr (Some v))"
| "scaled x c = Inl TypeError"

text \<open>
  \<^verbatim>\<open>predict_salary\<close> picks one of four functions by the pair
  \<^verbatim>\<open>(bool(salary_from), bool(salary_to))\<close> and applies it to the two bounds.
\<close>

definition predict_salary :: "json \<Rightarrow> json \<Rightarrow> exn + int option" where
  "predict_salary salary_from salary_to =
     (case (truthy salary_from, truthy salary_to) of
        (True, True) \<Rightarrow> midpoint salary_from salary_to
      | (True, False) \<Rightarrow> scaled salary_from double_1_2
      | (False, True) \<Rightarrow> scaled salary_to double_0_8
      | (False, False) \<Rightarrow> Inr None)"

text \<open>
  \<^verbatim>\<open>predict_rub_salary_hh\<close>: no estimate for an empty record, for a record whose
  \<^verbatim>\<open>salary\<close> is empty, and for a currency other than \<^verbatim>\<open>RUR\<close>. The conditions are
  evaluated left to right and stop at the first true one.
\<close>

definition predict_rub_salary_hh :: "json \<Rightarrow> exn + int option" where
  "predict_rub_salary_hh vacancy =
     (if \<not> truthy vacancy then Inr None
      else case subscript vacancy ''salary'' of
        Inl err \<Rightarrow> Inl err
      | Inr salary \<Rightarrow>
          if \<not> truthy salary then Inr None
          else case subscript salary ''currency'' of
            Inl err \<Rightarrow> Inl err
          | Inr currency \<Rightarrow>
              if currency \<noteq> JStr ''RUR'' then Inr None
              else case subscript salary ''from'' of
                Inl err \<Rightarrow> Inl err
              | Inr salary_from \<Rightarrow>
                  (case subscript salary ''to'' of
                     Inl err \<Rightarrow> Inl err
                   | Inr salary_to \<Rightarrow> predict_salary salary_from salary_to))"

text \<open>\<^verbatim>\<open>predict_rub_salary_sj\<close>: the currency is a field of the record itself.\<close>

definition predict_rub_salary_sj :: "json \<Rightarrow> exn + int option" where
  "predict_rub_salary_sj vacancy =
     (if \<not> truthy vacancy then Inr None
      else case subscript vacancy ''currency'' of
        Inl err \<Rightarrow> Inl err
      | Inr currency \<Rightarrow>
          if currency \<noteq> JStr ''rub'' then Inr None
          else case subscript vacancy ''payment_from'' of
            Inl err \<Rightarrow> Inl err
          | Inr payment_from \<Rightarrow>
              (case subscript vacancy ''payment_to'' of
                 Inl err \<Rightarrow> Inl err
               | Inr payment_to \<Rightarrow> predict_salary payment_from payment_to))"

section \<open>The aggregator\<close>

record statistics =
  language :: string
  vacancies_found :: nat
  vacancies_processed :: nat
  average_salary :: int

text \<open>
  The comprehension \<^verbatim>\<open>[x for x in predict_salaries if x]\<close> keeps the estimates that
  are true as Python values: neither \<^verbatim>\<open>None\<close> nor \<^verbatim>\<open>0\<close>.
\<close>

fun kept_salaries :: "int option list \<Rightarrow> int list" where
  "kept_salaries [] = []"
| "kept_salaries (None # xs) = kept_salaries xs"
| "kept_salaries (Some x # xs) = (if x \<noteq> 0 then x # kept_salaries xs else kept_salaries xs)"

text \<open>
  \<^verbatim>\<open>get_statistics\<close>: the division \<^verbatim>\<open>sum(...) // len(...)\<close> raises ZeroDivisionError
  when no estimate is kept.
\<close>

definition get_statistics :: "string \<Rightarrow> json list \<Rightarrow> int option list \<Rightarrow> exn + statistics" where
  "get_statistics lang vacancies predict_salaries =
     (let kept = kept_salaries predict_salaries;
          found = length vacancies;
          processed = length kept
      in if processed = 0 then Inl ZeroDivisionError
         else Inr \<lparr> language = lang, vacancies_found = found,
                    vacancies_processed = processed,
                    average_salary = sum_list kept div int processed \<rparr>)"

section \<open>The fetchers\<close>

text \<open>
  What one call of \<^verbatim>\<open>requests.get\<close> followed by \<^verbatim>\<open>raise_for_status\<close> and
  \<^verbatim>\<open>json\<close> can do: deliver a body with its list of records and its pagination
  field (\<^verbatim>\<open>pages\<close> of hh.ru, \<^verbatim>\<open>more\<close> of superjob.ru), raise
  \<^verbatim>\<open>requests.HTTPError\<close>, raise \<^verbatim>\<open>requests.exceptions.ConnectionError\<close>, or raise
  an exception that neither \<^verbatim>\<open>except\<close> clause catches.
\<close>

datatype 'b response = Body "json list" 'b | HTTPError | ConnectionError | Uncaught

text \<open>
  The provider is the sequence of its answers: the \<open>k\<close>-th request of a download
  receives \<open>env k\<close>. Of the request only the page index changes during a download;
  the other parameters, the language among them, are fixed and not modelled. The effects of a download are recorded in order: a request for
  a page index (logged by \<^verbatim>\<open>logger.info\<close> just before), the two warnings, and
  \<^verbatim>\<open>time.sleep\<close> with its duration.
\<close>

datatype event = Request int | WarnHTTP int | WarnConnection int | Sleep nat

text \<open>
  The inner \<^verbatim>\<open>while True\<close> loop, the same in both fetchers: a body extends the list
  and replaces the pagination field, an HTTP error leaves both as they are, and both
  leave the loop by \<^verbatim>\<open>break\<close>; a connection error sleeps 30 seconds and repeats the
  request of the same page by \<^verbatim>\<open>continue\<close>. The result is the number of the next
  request, the pagination field, the list and the effects.
\<close>

partial_function (option) page_attempts ::
  "(nat \<Rightarrow> 'b response) \<Rightarrow> nat \<Rightarrow> int \<Rightarrow> 'b \<Rightarrow> json list \<Rightarrow> event list
     \<Rightarrow> (exn + nat \<times> 'b \<times> json list \<times> event list) option" where
  "page_attempts env k page pagination vacancies log =
     (case env k of
        Body items field \<Rightarrow>
          Some (Inr (Suc k, field, vacancies @ items, log @ [Request page]))
      | HTTPError \<Rightarrow>
          Some (Inr (Suc k, pagination, vacancies, log @ [Request page, WarnHTTP page]))
      | ConnectionError \<Rightarrow>
          page_attempts env (Suc k) page pagination vacancies
            (log @ [Request page, WarnConnection page, Sleep 30])
      | Uncaught \<Rightarrow> Some (Inl RequestFault))"

text \<open>The loop \<^verbatim>\<open>while page < number_of_pages\<close> of \<^verbatim>\<open>download_vacancies_hh\<close>.\<close>

partial_function (option) hh_pages ::
  "(nat \<Rightarrow> int response) \<Rightarrow> nat \<Rightarrow> int \<Rightarrow> int \<Rightarrow> json list \<Rightarrow> event list
     \<Rightarrow> (exn + json list \<times> event list) option" where
  "hh_pages env k page number_of_pages vacancies log =
     (if page < number_of_pages then
        Option.bind (page_attempts env k page number_of_pages vacancies log)
          (\<lambda>r. case r of
                 Inl err \<Rightarrow> Some (Inl err)
               | Inr (k', number_of_pages', vacancies', log') \<Rightarrow>
                   hh_pages env k' (page + 1) number_of_pages' vacancies' log')
      else Some (Inr (vacancies, log)))"

definition download_vacancies_hh ::
  "(nat \<Rightarrow> int response) \<Rightarrow> (exn + json list \<times> event list) option" where
  "download_vacancies_hh env = hh_pages env 0 0 1 [] []"

text \<open>The loop \<^verbatim>\<open>while more_pages\<close> of \<^verbatim>\<open>download_vacancies_sj\<close>.\<close>

partial_function (option) sj_pages ::
  "(nat \<Rightarrow> bool response) \<Rightarrow> nat \<Rightarrow> int \<Rightarrow> bool \<Rightarrow> json list \<Rightarrow> event list
     \<Rightarrow> (exn + json list \<times> event list) option" where
  "sj_pages env k page more_pages vacancies log =
     (if more_pages then
        Option.bind (page_attempts env k page more_pages vacancies log)
          (\<lambda>r. case r of
                 Inl err \<Rightarrow> Some (Inl err)
               | Inr (k', more_pages', vacancies', log') \<Rightarrow>
                   sj_pages env k' (page + 1) more_pages' vacancies' log')
      else Some (Inr (vacancies, log)))"

definition download_vacancies_sj ::
  "(nat \<Rightarrow> bool response) \<Rightarrow> (exn + json list \<times> event list) option" where
  "download_vacancies_sj env = sj_pages env 0 0 True [] []"

text \<open>
  The effects of \<open>n\<close> failed attempts at one page: each attempt is a request, a
  warning and a sleep of 30 seconds.
\<close>

definition retry_trace :: "int \<Rightarrow> nat \<Rightarrow> event list" where
  "retry_trace page n = concat (replicate n [Request page, WarnConnection page, Sleep 30])"

text \<open>The page indices requested during a download, in order.\<close>

fun requested :: "event list \<Rightarrow> int list" where
  "requested [] = []"
| "requested (Request p # es) = p # requested es"
| "requested (e # es) = requested es"

text \<open>Sample vacancy records, used to instantiate the theorems below.\<close>

definition hh_vacancy_usd :: "(string \<times> json) list" where
  "hh_vacancy_usd =
     [(''salary'', JObj [(''from'', JInt 100), (''to'', JInt 200), (''currency'', JStr ''USD'')])]"

definition hh_vacancy_no_salary :: "(string \<times> json) list" where
  "hh_vacancy_no_salary = [(''name'', JStr ''Go developer''), (''salary'', JNull)]"

definition sj_vacancy_usd :: "(string \<times> json) list" where
  "sj_vacancy_usd =
     [(''payment_from'', JInt 100), (''payment_to'', JInt 200), (''currency'', JStr ''usd'')]"

text \<open>Sample providers, used to instantiate the theorems below.\<close>

definition hh_two_failures :: "nat \<Rightarrow> int response" where
  "hh_two_failures k =
     (if k < 2 then ConnectionError else Body [JObj [(''salary'', JNull)]] 1)"

definition sj_two_failures :: "nat \<Rightarrow> bool response" where
  "sj_two_failures k =
     (if k < 2 then ConnectionError else Body [JObj [(''currency'', JStr ''rub'')]] False)"

definition hh_http_error :: "nat \<Rightarrow> int response" where
  "hh_http_error k = (if k = 0 then HTTPError else Body [JObj [(''salary'', JNull)]] 3)"


text \<open>
  A provider of hh.ru that declares one page more with every answer, one of superjob.ru
  that answers every request with an HTTP error, and two providers of three pages.
\<close>

definition hh_growing_pages :: "nat \<Rightarrow> int response" where
  "hh_growing_pages k = Body [] (int k + 2)"

definition sj_always_http_error :: "nat \<Rightarrow> bool response" where
  "sj_always_http_error k = HTTPError"

definition hh_three_pages :: "nat \<Rightarrow> int response" where
  "hh_three_pages k =
     (if k = 0 then ConnectionError
      else if k = 1 then Body [JObj [(''salary'', JNull)]] 3
      else if k = 2 then HTTPError
      else Body [] 3)"

definition sj_three_pages :: "nat \<Rightarrow> bool response" where
  "sj_three_pages k =
     (if k = 0 then Body [JObj [(''currency'', JStr ''rub'')]] True
      else if k = 1 then HTTPError
      else if k = 2 then ConnectionError
      else if k = 3 then Body [] False
      else Body [] True)"

section \<open>Properties of the estimator\<close>

lemma predict_salary_if:
  "predict_salary a b =
     (if truthy a then (if truthy b then midpoint a b else scaled a double_1_2)
      else (if truthy b then scaled b double_0_8 else Inr None))"
  by (simp add: predict_salary_def split: bool.splits)

lemmas double_eval =
  int_of_product_def fl_round_def fl_overflow_def fl_trunc_def double_1_2_def
  double_0_8_def round_half_even_def bit_length.simps Let_def

subsection \<open>The double-precision products are exact below \<open>2 ^ 50\<close>\<close>

text \<open>
  For \<open>0 < \<bar>x\<bar> < 2 ^ 50\<close> the rounding of the product does not reach the next
  integer: \<^verbatim>\<open>int(x * 1.2)\<close> is \<open>6 * x / 5\<close> and \<^verbatim>\<open>int(x * 0.8)\<close> is
  \<open>4 * x / 5\<close>, both truncated towards zero.
\<close>

lemma sdiv_nonneg: "0 \<le> (a::int) \<Longrightarrow> 0 < b \<Longrightarrow> a sdiv b = a div b"
  by (simp add: signed_divide_int_def sgn_if)

lemma bit_length_nonpos: "a \<le> 0 \<Longrightarrow> bit_length a = 0"
  by (simp add: bit_length.simps)

lemma bit_length_pos: "0 < a \<Longrightarrow> bit_length a = Suc (bit_length (a div 2))"
  by (subst bit_length.simps) simp

lemma bit_length_upper: "0 < a \<Longrightarrow> a < 2 ^ bit_length a"
proof (induction a rule: bit_length.induct)
  case (1 n)
  show ?case
  proof (cases "0 < n div 2")
    case True
    with 1 have "n div 2 < 2 ^ bit_length (n div 2)" by simp
    then have "n < 2 * 2 ^ bit_length (n div 2)" by linarith
    with 1(2) show ?thesis by (simp add: bit_length_pos)
  next
    case False
    with 1(2) have "n = 1" by linarith
    then show ?thesis by (simp add: bit_length_pos bit_length_nonpos)
  qed
qed

lemma bit_length_lower: "0 < a \<Longrightarrow> 2 ^ bit_length a \<le> 2 * a"
proof (induction a rule: bit_length.induct)
  case (1 n)
  show ?case
  proof (cases "0 < n div 2")
    case True
    with 1 have "2 ^ bit_length (n div 2) \<le> 2 * (n div 2)" by simp
    then have "2 * 2 ^ bit_length (n div 2) \<le> 2 * n" by linarith
    with 1(2) show ?thesis by (simp add: bit_length_pos)
  next
    case False
    with 1(2) have "n = 1" by linarith
    then show ?thesis by (simp add: bit_length_pos bit_length_nonpos)
  qed
qed

lemma bit_length_le: "a < 2 ^ n \<Longrightarrow> bit_length a \<le> n"
proof (cases "0 < a")
  case False
  then show ?thesis by (simp add: bit_length_nonpos)
next
  case True
  assume "a < 2 ^ n"
  with bit_length_lower [OF True] have "(2::int) ^ bit_length a < 2 ^ Suc n" by simp
  then have "bit_length a < Suc n"
    by (rule power_less_imp_less_exp [of 2, rotated]) simp
  then show ?thesis by simp
qed

lemma round_half_even_bounds:
  "2 * (round_half_even a s * 2 ^ s) \<le> 2 * a + 2 ^ s
   \<and> 2 * a \<le> 2 * (round_half_even a s * 2 ^ s) + 2 ^ s"
proof -
  define P :: int where "P = 2 ^ s"
  define q0 where "q0 = a div P"
  define r where "r = a mod P"
  have P: "0 < P" by (simp add: P_def)
  have a: "a = q0 * P + r" by (simp add: q0_def r_def)
  have r: "0 \<le> r" "r < P" using P by (simp_all add: r_def)
  have up: "(q0 + 1) * P = q0 * P + P" by (simp add: algebra_simps)
  show ?thesis
    unfolding round_half_even_def Let_def P_def [symmetric] q0_def [symmetric] r_def [symmetric]
    using a r up by auto
qed

lemma fl_round_trunc:
  assumes big: "53 < bit_length a" and fits: "bit_length a - 53 \<le> E"
    and lo: "2 * (n * 2 ^ E) < 2 * a + 2 ^ (bit_length a - 53)"
    and up: "2 * a + 2 ^ (bit_length a - 53) < 2 * ((n + 1) * 2 ^ E)"
  shows "fl_trunc (fl_round (a, - int E)) = n \<and> \<not> fl_overflow (fl_round (a, - int E))"
proof -
  define s where "s = bit_length a - 53"
  define q where "q = round_half_even a s"
  define P :: int where "P = 2 ^ s"
  define t where "t = E - s"
  have P: "0 < P" by (simp add: P_def)
  have E: "(2::int) ^ E = 2 ^ t * P"
    using fits by (simp add: t_def P_def s_def power_add [symmetric])
  have round: "fl_round (a, - int E) = (q, - int E + int s)"
    using big by (simp add: fl_round_def Let_def q_def s_def)
  from round_half_even_bounds [of a s]
  have b: "2 * (q * P) \<le> 2 * a + P" "2 * a \<le> 2 * (q * P) + P"
    by (simp_all add: q_def P_def)
  from b(1) up have "q * P < (n + 1) * 2 ^ E"
    by (simp add: s_def [symmetric] P_def [symmetric])
  then have "q * P < ((n + 1) * 2 ^ t) * P" by (simp add: E mult.assoc)
  then have upper: "q < (n + 1) * 2 ^ t" using P by (simp add: mult_less_cancel_right)
  from b(2) lo have "2 * (n * 2 ^ E) < 2 * (q * P) + 2 * P"
    by (simp add: s_def [symmetric] P_def [symmetric])
  then have "n * 2 ^ E < (q + 1) * P" by (simp add: algebra_simps)
  then have "(n * 2 ^ t) * P < (q + 1) * P" by (simp add: E mult.assoc)
  then have lower: "n * 2 ^ t < q + 1" using P by (simp add: mult_less_cancel_right)
  have "q div 2 ^ t = n"
  proof (rule int_div_pos_eq [of q "2 ^ t" n "q - 2 ^ t * n"])
    show "q = 2 ^ t * n + (q - 2 ^ t * n)" by simp
    show "0 \<le> q - 2 ^ t * n" using lower by (simp add: mult.commute)
    show "q - 2 ^ t * n < 2 ^ t" using upper by (simp add: algebra_simps)
  qed
  moreover have "fl_trunc (q, - int E + int s) = q div 2 ^ t"
  proof (cases "s = E")
    case True
    then show ?thesis by (simp add: fl_trunc_def t_def)
  next
    case False
    with fits have "s < E" by (simp add: s_def)
    then have "nat (int E - int s) = t" by (simp add: t_def)
    with \<open>s < E\<close> show ?thesis by (simp add: fl_trunc_def)
  qed
  moreover have "\<not> fl_overflow (q, - int E + int s)"
  proof -
    have "0 < a"
      using big bit_length_nonpos [of a] by (cases "0 < a") simp_all
    then have "a < 2 ^ bit_length a" by (rule bit_length_upper)
    also have "bit_length a = 53 + s" using big by (simp add: s_def)
    finally have "a < 2 ^ 53 * P" by (simp add: power_add P_def)
    with b(1) have "2 * (q * P) < 2 * (2 ^ 53 * P) + 2 * P" using P by linarith
    then have "q * P < (2 ^ 53 + 1) * P" by (simp add: algebra_simps)
    then have "q < 2 ^ 53 + 1" using P by (simp add: mult_less_cancel_right)
    then have "q < 2 ^ 54" by simp
    then have "bit_length q \<le> 54" by (rule bit_length_le)
    with fits show ?thesis by (simp add: fl_overflow_def s_def)
  qed
  ultimately show ?thesis by (simp add: round)
qed

lemma int_of_product_abs:
  "x \<noteq> 0 \<Longrightarrow> int_of_product x c =
     (case int_of_product \<bar>x\<bar> c of Inl err \<Rightarrow> Inl err | Inr v \<Rightarrow> Inr (sgn x * v))"
  by (simp add: int_of_product_def Let_def)

lemma int_of_product_small:
  assumes "0 < x" and "x < 2 ^ 50"
    and "fl_trunc (fl_round (x * fst c, snd c)) = n"
    and "\<not> fl_overflow (fl_round (x * fst c, snd c))"
  shows "int_of_product x c = Inr n"
proof -
  from assms(2) have "bit_length x \<le> 50" by (rule bit_length_le)
  then have "fl_round (\<bar>x\<bar>, 0) = (x, 0)" "\<not> fl_overflow (x, 0)"
    using assms(1) by (simp_all add: fl_round_def fl_overflow_def)
  with assms show ?thesis by (simp add: int_of_product_def Let_def)
qed

lemma int_of_product_1_2_pos:
  assumes "0 < x" and "x < 2 ^ 50"
  shows "int_of_product x double_1_2 = Inr (6 * x div 5)"
proof (cases "bit_length (x * 5404319552844595) \<le> 53")
  case True
  have "0 < x * 5404319552844595" using assms(1) by simp
  from bit_length_upper [OF this] have "x * 5404319552844595 < 2 ^ bit_length (x * 5404319552844595)" .
  also have "\<dots> \<le> 2 ^ 53" using True by (intro power_increasing) simp_all
  finally have "x = 1" using assms(1) by simp
  then show ?thesis by (simp add: double_eval)
next
  case False
  define a where "a = x * 5404319552844595"
  define s where "s = bit_length a - 53"
  define P :: int where "P = 2 ^ s"
  define n where "n = 6 * x div 5"
  have big: "53 < bit_length a" using False by (simp add: a_def)
  have a_pos: "0 < a" using assms(1) by (simp add: a_def)
  have "a < 2 ^ 104" using assms by (simp add: a_def)
  then have "bit_length a \<le> 104" by (rule bit_length_le)
  then have fits: "bit_length a - 53 \<le> 52" by simp
  have L: "bit_length a = 53 + s" using big by (simp add: s_def)
  have a_lt: "a < 9007199254740992 * P"
    using bit_length_upper [OF a_pos] by (simp add: L power_add P_def)
  have a_ge: "9007199254740992 * P \<le> 2 * a"
    using bit_length_lower [OF a_pos] by (simp add: L power_add P_def)
  have n: "5 * n \<le> 6 * x" "6 * x \<le> 5 * n + 4"
    by (simp_all add: n_def)
  have P: "0 < P" by (simp add: P_def)
  have x50: "x < 1125899906842624" using assms(2) by simp
  have "2 * (n * 4503599627370496) < 2 * a + P"
    using a_lt n(1) assms(1) P unfolding a_def by linarith
  then have lo: "2 * (n * 2 ^ 52) < 2 * a + 2 ^ (bit_length a - 53)"
    by (simp add: P_def s_def)
  have "2 * a + P < 2 * (n * 4503599627370496) + 9007199254740992"
    using a_ge n(2) x50 P unfolding a_def by linarith
  then have up: "2 * a + 2 ^ (bit_length a - 53) < 2 * ((n + 1) * 2 ^ 52)"
    by (simp add: P_def s_def algebra_simps)
  from fl_round_trunc [OF big fits lo up]
  have "fl_trunc (fl_round (x * fst double_1_2, snd double_1_2)) = n"
    "\<not> fl_overflow (fl_round (x * fst double_1_2, snd double_1_2))"
    by (simp_all add: double_1_2_def a_def)
  from int_of_product_small [OF assms this] show ?thesis by (simp add: n_def)
qed

lemma int_of_product_0_8_pos:
  assumes "0 < x" and "x < 2 ^ 50"
  shows "int_of_product x double_0_8 = Inr (4 * x div 5)"
proof (cases "bit_length (x * 7205759403792794) \<le> 53")
  case True
  have "0 < x * 7205759403792794" using assms(1) by simp
  from bit_length_upper [OF this]
  have "x * 7205759403792794 < 2 ^ bit_length (x * 7205759403792794)" .
  also have "\<dots> \<le> 2 ^ 53" using True by (intro power_increasing) simp_all
  finally have "x = 1" using assms(1) by simp
  then show ?thesis by (simp add: double_eval)
next
  case False
  define a where "a = x * 7205759403792794"
  define s where "s = bit_length a - 53"
  define P :: int where "P = 2 ^ s"
  define n where "n = 4 * x div 5"
  have big: "53 < bit_length a" using False by (simp add: a_def)
  have a_pos: "0 < a" using assms(1) by (simp add: a_def)
  have "a < 2 ^ 104" using assms by (simp add: a_def)
  then have "bit_length a \<le> 104" by (rule bit_length_le)
  then have fits: "bit_length a - 53 \<le> 53" by simp
  have L: "bit_length a = 53 + s" using big by (simp add: s_def)
  have a_lt: "a < 9007199254740992 * P"
    using bit_length_upper [OF a_pos] by (simp add: L power_add P_def)
  have a_ge: "9007199254740992 * P \<le> 2 * a"
    using bit_length_lower [OF a_pos] by (simp add: L power_add P_def)
  have n: "5 * n \<le> 4 * x" "4 * x \<le> 5 * n + 4"
    by (simp_all add: n_def)
  have P: "0 < P" by (simp add: P_def)
  have x50: "x < 1125899906842624" using assms(2) by simp
  have "2 * (n * 9007199254740992) < 2 * a + P"
    using a_lt n(1) assms(1) P unfolding a_def by linarith
  then have lo: "2 * (n * 2 ^ 53) < 2 * a + 2 ^ (bit_length a - 53)"
    by (simp add: P_def s_def)
  have "2 * a + P < 2 * (n * 9007199254740992) + 18014398509481984"
    using a_ge n(2) x50 P unfolding a_def by linarith
  then have up: "2 * a + 2 ^ (bit_length a - 53) < 2 * ((n + 1) * 2 ^ 53)"
    by (simp add: P_def s_def algebra_simps)
  from fl_round_trunc [OF big fits lo up]
  have "fl_trunc (fl_round (x * fst double_0_8, snd double_0_8)) = n"
    "\<not> fl_overflow (fl_round (x * fst double_0_8, snd double_0_8))"
    by (simp_all add: double_0_8_def a_def)
  from int_of_product_small [OF assms this] show ?thesis by (simp add: n_def)
qed

lemma sdiv_scaled: "0 < (k::int) \<Longrightarrow> (k * x) sdiv 5 = sgn x * (k * \<bar>x\<bar> div 5)"
  by (simp add: signed_divide_int_def sgn_mult abs_mult)

lemma int_of_product_1_2:
  assumes "x \<noteq> 0" and "\<bar>x\<bar> < 2 ^ 50"
  shows "int_of_product x double_1_2 = Inr ((6 * x) sdiv 5)"
  using assms int_of_product_1_2_pos [of "\<bar>x\<bar>"]
  by (simp add: int_of_product_abs [of x] sdiv_scaled)

lemma int_of_product_0_8:
  assumes "x \<noteq> 0" and "\<bar>x\<bar> < 2 ^ 50"
  shows "int_of_product x double_0_8 = Inr ((4 * x) sdiv 5)"
  using assms int_of_product_0_8_pos [of "\<bar>x\<bar>"]
  by (simp add: int_of_product_abs [of x] sdiv_scaled)

text \<open>
  Claim C1 reads the four cases by the presence of the bounds. With a bound \<open>0\<close>,
  which is present, the script takes the case of an absent bound:
  \<^verbatim>\<open>predict_salary(0, 200)\<close> is \<open>160\<close>, not \<open>(0 + 200) / 2 = 100\<close>, and
  \<^verbatim>\<open>predict_salary(100, 0)\<close> is \<open>120\<close>, not \<open>(100 + 0) / 2 = 50\<close>.
\<close>

theorem predict_salary_zero_bound_counterexample:
  "predict_salary (JInt 0) (JInt 200) = Inr (Some 160)
   \<and> (0 + 200) sdiv 2 = (100::int)
   \<and> predict_salary (JInt 100) (JInt 0) = Inr (Some 120)
   \<and> (100 + 0) sdiv 2 = (50::int)"
  by (simp add: predict_salary_if double_eval signed_divide_int_def)

text \<open>
  Claim C1 as amended, a bound being given when it is neither \<^verbatim>\<open>None\<close> nor \<open>0\<close>:
  with no bound given the result is \<^verbatim>\<open>None\<close>; with both given it is the floor of
  \<open>(lower + upper) / 2\<close>, which is the truncated value when the sum is not negative;
  with only the lower bound given, of magnitude below \<open>2 ^ 50\<close>, it is
  \<open>lower * 1.2\<close> truncated towards zero; with only the upper bound given, of
  magnitude below \<open>2 ^ 50\<close>, it is \<open>upper * 0.8\<close> truncated towards zero.
\<close>

theorem predict_salary_four_cases:
  "predict_salary JNull JNull = Inr None
   \<and> predict_salary JNull (JInt 0) = Inr None
   \<and> predict_salary (JInt 0) JNull = Inr None
   \<and> predict_salary (JInt 0) (JInt 0) = Inr None
   \<and> (x \<noteq> 0 \<and> y \<noteq> 0 \<longrightarrow> predict_salary (JInt x) (JInt y) = Inr (Some ((x + y) div 2)))
   \<and> (x \<noteq> 0 \<and> y \<noteq> 0 \<and> 0 \<le> x + y \<longrightarrow>
        predict_salary (JInt x) (JInt y) = Inr (Some ((x + y) sdiv 2)))
   \<and> (x \<noteq> 0 \<and> \<bar>x\<bar> < 2 ^ 50 \<longrightarrow>
        predict_salary (JInt x) JNull = Inr (Some ((6 * x) sdiv 5))
        \<and> predict_salary (JInt x) (JInt 0) = Inr (Some ((6 * x) sdiv 5)))
   \<and> (y \<noteq> 0 \<and> \<bar>y\<bar> < 2 ^ 50 \<longrightarrow>
        predict_salary JNull (JInt y) = Inr (Some ((4 * y) sdiv 5))
        \<and> predict_salary (JInt 0) (JInt y) = Inr (Some ((4 * y) sdiv 5)))"
  by (simp add: predict_salary_if int_of_product_1_2 int_of_product_0_8 sdiv_nonneg)

theorem predict_salary_four_cases_witness:
  "(100::int) \<noteq> 0 \<and> (200::int) \<noteq> 0 \<and> (0::int) \<le> 100 + 200
   \<and> \<bar>100::int\<bar> < 2 ^ 50 \<and> \<bar>200::int\<bar> < 2 ^ 50
   \<and> predict_salary (JInt 100) (JInt 200) = Inr (Some 150)
   \<and> predict_salary (JInt 100) JNull = Inr (Some 120)
   \<and> predict_salary JNull (JInt 200) = Inr (Some 160)
   \<and> predict_salary JNull JNull = Inr None"
  using predict_salary_four_cases [of 100 200]
  by (simp add: signed_divide_int_def)

text \<open>
  Claim C9. Whether a bound counts as given is decided by \<^verbatim>\<open>bool\<close>, so a bound
  \<open>0\<close> is treated exactly as \<^verbatim>\<open>None\<close>: \<^verbatim>\<open>predict_salary(0, 200)\<close> is
  \<^verbatim>\<open>int(200 * 0.8) = 160\<close> and not \<^verbatim>\<open>(0 + 200) // 2 = 100\<close>, and
  \<^verbatim>\<open>predict_salary(0, 0)\<close> is \<^verbatim>\<open>None\<close>.
\<close>

theorem predict_salary_zero_is_absent:
  "predict_salary (JInt 0) y = predict_salary JNull y
   \<and> predict_salary x (JInt 0) = predict_salary x JNull
   \<and> predict_salary (JInt 0) (JInt 200) = Inr (Some 160)
   \<and> predict_salary (JInt 0) (JInt 200) \<noteq> Inr (Some ((0 + 200) div 2))
   \<and> predict_salary (JInt 0) (JInt 0) = Inr None"
  by (simp add: predict_salary_if double_eval)

text \<open>
  Claim C4. A record of hh.ru whose \<^verbatim>\<open>salary\<close> object reports a currency other than
  \<^verbatim>\<open>RUR\<close>, or whose \<^verbatim>\<open>salary\<close> is \<^verbatim>\<open>null\<close> (or empty), and a record of
  superjob.ru whose \<^verbatim>\<open>currency\<close> is not \<^verbatim>\<open>rub\<close>, get no estimate, whatever the
  bounds in the record are.
\<close>

theorem currency_filter:
  "(map_of vacancy ''salary'' = Some (JObj salary) \<and> map_of salary ''currency'' = Some currency
      \<and> currency \<noteq> JStr ''RUR'' \<longrightarrow> predict_rub_salary_hh (JObj vacancy) = Inr None)
   \<and> (map_of vacancy' ''salary'' = Some salary' \<and> \<not> truthy salary'
        \<longrightarrow> predict_rub_salary_hh (JObj vacancy') = Inr None)
   \<and> (map_of vacancy'' ''currency'' = Some currency'' \<and> currency'' \<noteq> JStr ''rub''
        \<longrightarrow> predict_rub_salary_sj (JObj vacancy'') = Inr None)"
  by (auto simp add: predict_rub_salary_hh_def predict_rub_salary_sj_def)

theorem currency_filter_witness:
  "map_of hh_vacancy_usd ''salary''
     = Some (JObj [(''from'', JInt 100), (''to'', JInt 200), (''currency'', JStr ''USD'')])
   \<and> map_of [(''from'', JInt 100), (''to'', JInt 200), (''currency'', JStr ''USD'')] ''currency''
     = Some (JStr ''USD'')
   \<and> JStr ''USD'' \<noteq> JStr ''RUR''
   \<and> predict_rub_salary_hh (JObj hh_vacancy_usd) = Inr None
   \<and> map_of hh_vacancy_no_salary ''salary'' = Some JNull \<and> \<not> truthy JNull
   \<and> predict_rub_salary_hh (JObj hh_vacancy_no_salary) = Inr None
   \<and> map_of sj_vacancy_usd ''currency'' = Some (JStr ''usd'')
   \<and> JStr ''usd'' \<noteq> JStr ''rub''
   \<and> predict_rub_salary_sj (JObj sj_vacancy_usd) = Inr None"
proof -
  have a: "map_of hh_vacancy_usd ''salary''
     = Some (JObj [(''from'', JInt 100), (''to'', JInt 200), (''currency'', JStr ''USD'')])"
    by (simp add: hh_vacancy_usd_def)
  have b: "map_of [(''from'', JInt 100), (''to'', JInt 200), (''currency'', JStr ''USD'')]
     ''currency'' = Some (JStr ''USD'')"
    by simp
  have c: "JStr ''USD'' \<noteq> JStr ''RUR''" by simp
  have d: "map_of hh_vacancy_no_salary ''salary'' = Some JNull"
    by (simp add: hh_vacancy_no_salary_def)
  have e: "\<not> truthy JNull" by simp
  have f: "map_of sj_vacancy_usd ''currency'' = Some (JStr ''usd'')"
    by (simp add: sj_vacancy_usd_def)
  have g: "JStr ''usd'' \<noteq> JStr ''rub''" by simp
  note filter = currency_filter
    [where vacancy = hh_vacancy_usd
       and salary = "[(''from'', JInt 100), (''to'', JInt 200), (''currency'', JStr ''USD'')]"
       and currency = "JStr ''USD''"
       and vacancy' = hh_vacancy_no_salary and salary' = JNull
       and vacancy'' = sj_vacancy_usd and currency'' = "JStr ''usd''"]
  from filter a b c d e f g show ?thesis
    by blast
qed

section \<open>Properties of the aggregator\<close>

lemma kept_salaries_length: "length (kept_salaries es) \<le> length es"
  by (induction es rule: kept_salaries.induct) auto

lemma kept_salaries_replicate_None: "kept_salaries (replicate n None) = []"
  by (induction n) auto

text \<open>
  Claim C2 asks for a row with \<open>processed = 0\<close> and a placeholder average when no
  estimate is present. The script divides by the number of kept estimates without a
  guard: on a list of absent estimates only, of any length and with any vacancy list,
  \<^verbatim>\<open>get_statistics\<close> raises ZeroDivisionError and returns no row.
\<close>

theorem get_statistics_all_absent_raises:
  "get_statistics lang vacancies (replicate n None) = Inl ZeroDivisionError
   \<and> get_statistics ''Go'' [JObj [(''salary'', JNull)]] [None] = Inl ZeroDivisionError"
  by (simp add: get_statistics_def kept_salaries_replicate_None)

text \<open>
  Claim C5. When there is one estimate per vacancy, a row returned by
  \<^verbatim>\<open>get_statistics\<close> has \<open>processed \<le> found\<close>.
\<close>

theorem get_statistics_processed_le_found:
  assumes "length es = length vacancies"
    and "get_statistics lang vacancies es = Inr row"
  shows "vacancies_processed row \<le> vacancies_found row"
  using assms kept_salaries_length [of es]
  by (auto simp add: get_statistics_def Let_def split: if_splits)

theorem get_statistics_processed_le_found_witness:
  "length [Some 1000, None, Some (2000::int)] = length [JNull, JNull, JNull]
   \<and> get_statistics ''Go'' [JNull, JNull, JNull] [Some 1000, None, Some 2000]
       = Inr \<lparr> language = ''Go'', vacancies_found = 3, vacancies_processed = 2,
               average_salary = 1500 \<rparr>
   \<and> vacancies_processed \<lparr> language = ''Go'', vacancies_found = 3, vacancies_processed = 2,
               average_salary = 1500 \<rparr>
       \<le> vacancies_found \<lparr> language = ''Go'', vacancies_found = 3, vacancies_processed = 2,
               average_salary = 1500 \<rparr>"
proof -
  have len: "length [Some 1000, None, Some (2000::int)] = length [JNull, JNull, JNull]"
    by simp
  have row: "get_statistics ''Go'' [JNull, JNull, JNull] [Some 1000, None, Some 2000]
       = Inr \<lparr> language = ''Go'', vacancies_found = 3, vacancies_processed = 2,
               average_salary = 1500 \<rparr>"
    by (simp add: get_statistics_def)
  from get_statistics_processed_le_found [OF len row] len row show ?thesis
    by blast
qed

lemma kept_salaries_filter:
  "kept_salaries es = map the (filter (\<lambda>e. e \<noteq> None \<and> e \<noteq> Some 0) es)"
  by (induction es rule: kept_salaries.induct) auto

lemma kept_salaries_nonempty:
  "Some v \<in> set es \<Longrightarrow> v \<noteq> 0 \<Longrightarrow> kept_salaries es \<noteq> []"
  by (induction es rule: kept_salaries.induct) auto

lemma filter_no_zero:
  "Some 0 \<notin> set es \<Longrightarrow>
   filter (\<lambda>e. e \<noteq> None \<and> e \<noteq> Some (0::int)) es = filter (\<lambda>e. e \<noteq> None) es"
  by (induction es) auto

text \<open>
  Claim C3 reads: \<open>found\<close> is the length of the vacancy list, \<open>processed\<close> the number
  of estimates that are not absent, \<open>average_salary\<close> their mean, truncated. The
  script drops an estimate \<open>0\<close> together with the absent ones, so the claim fails
  on a list with an estimate \<open>0\<close>: for the estimates \<^verbatim>\<open>[0, 10]\<close> the row has
  \<open>processed = 1\<close> and the average \<open>10\<close>, not \<open>2\<close> and \<open>5\<close>. Such an
  estimate arises from an upper bound of 1, as \<^verbatim>\<open>int(1 * 0.8) = 0\<close>.
\<close>

theorem get_statistics_zero_estimate_counterexample:
  "get_statistics ''Go'' [JObj sj_vacancy_usd, JObj sj_vacancy_usd] [Some 0, Some 10]
     = Inr \<lparr> language = ''Go'', vacancies_found = 2, vacancies_processed = 1,
             average_salary = 10 \<rparr>
   \<and> length (filter (\<lambda>e. e \<noteq> None) [Some 0, Some (10::int)]) = 2
   \<and> (0 + 10) sdiv 2 = (5::int)
   \<and> predict_salary JNull (JInt 1) = Inr (Some 0)"
  by (simp add: get_statistics_def signed_divide_int_def predict_salary_if double_eval)

text \<open>
  Claim C3 as amended: when some estimate is neither absent nor \<open>0\<close>,
  \<^verbatim>\<open>get_statistics\<close> returns a row with the given language, \<open>found\<close> the length of
  the vacancy list, \<open>processed\<close> the number of estimates that are neither absent nor
  \<open>0\<close>, and \<open>average_salary\<close> the floor of their mean. When no estimate is
  \<open>0\<close>, \<open>processed\<close> is the number of estimates that are not absent, and when
  moreover their sum is not negative, the average is their mean truncated towards
  zero.
\<close>

theorem get_statistics_row:
  assumes "Some v \<in> set es" and "v \<noteq> 0"
  shows "\<exists>row. get_statistics lang vacancies es = Inr row
     \<and> language row = lang
     \<and> vacancies_found row = length vacancies
     \<and> vacancies_processed row = length (filter (\<lambda>e. e \<noteq> None \<and> e \<noteq> Some 0) es)
     \<and> average_salary row
         = (\<Sum>e\<leftarrow>filter (\<lambda>e. e \<noteq> None \<and> e \<noteq> Some 0) es. the e)
             div int (length (filter (\<lambda>e. e \<noteq> None \<and> e \<noteq> Some 0) es))
     \<and> (Some 0 \<notin> set es \<longrightarrow>
          vacancies_processed row = length (filter (\<lambda>e. e \<noteq> None) es))
     \<and> (Some 0 \<notin> set es \<longrightarrow> 0 \<le> (\<Sum>e\<leftarrow>filter (\<lambda>e. e \<noteq> None) es. the e) \<longrightarrow>
          average_salary row
            = (\<Sum>e\<leftarrow>filter (\<lambda>e. e \<noteq> None) es. the e)
                sdiv int (length (filter (\<lambda>e. e \<noteq> None) es)))"
proof -
  let ?kept = "filter (\<lambda>e. e \<noteq> None \<and> e \<noteq> Some 0) es"
  let ?present = "filter (\<lambda>e. e \<noteq> None) es"
  let ?row = "\<lparr> language = lang, vacancies_found = length vacancies,
              vacancies_processed = length ?kept,
              average_salary = (\<Sum>e\<leftarrow>?kept. the e) div int (length ?kept) \<rparr>"
  have ne: "kept_salaries es \<noteq> []"
    using assms by (rule kept_salaries_nonempty)
  then have pos: "0 < int (length ?kept)"
    by (simp add: kept_salaries_filter)
  have row: "get_statistics lang vacancies es = Inr ?row"
    using ne by (simp add: get_statistics_def Let_def kept_salaries_filter)
  have same: "?kept = ?present" if "Some 0 \<notin> set es"
    using that by (rule filter_no_zero)
  have count: "vacancies_processed ?row = length ?present" if "Some 0 \<notin> set es"
    using same [OF that] by simp
  have mean: "average_salary ?row = (\<Sum>e\<leftarrow>?present. the e) sdiv int (length ?present)"
    if "Some 0 \<notin> set es" and "0 \<le> (\<Sum>e\<leftarrow>?present. the e)"
    using same [OF that(1)] that(2) pos by (simp add: sdiv_nonneg)
  show ?thesis
  proof (intro exI [of _ ?row] conjI impI)
    show "get_statistics lang vacancies es = Inr ?row" by (rule row)
    show "language ?row = lang" by simp
    show "vacancies_found ?row = length vacancies" by simp
    show "vacancies_processed ?row = length ?kept" by simp
    show "average_salary ?row = (\<Sum>e\<leftarrow>?kept. the e) div int (length ?kept)" by simp
    show "vacancies_processed ?row = length ?present" if "Some 0 \<notin> set es"
      using that by (rule count)
    show "average_salary ?row = (\<Sum>e\<leftarrow>?present. the e) sdiv int (length ?present)"
      if "Some 0 \<notin> set es" and "0 \<le> (\<Sum>e\<leftarrow>?present. the e)"
      using that by (rule mean)
  qed
qed

theorem get_statistics_row_witness:
  "Some 1000 \<in> set [Some 1000, None, Some 2000, None, None] \<and> (1000::int) \<noteq> 0
   \<and> Some 0 \<notin> set [Some 1000, None, Some (2000::int), None, None]
   \<and> (\<exists>row. get_statistics ''Go'' (replicate 5 (JObj hh_vacancy_no_salary))
                [Some 1000, None, Some 2000, None, None] = Inr row
          \<and> language row = ''Go'' \<and> vacancies_found row = 5
          \<and> vacancies_processed row = 2 \<and> average_salary row = 1500)"
proof -
  have a: "Some 1000 \<in> set [Some 1000, None, Some 2000, None, None]" by simp
  have b: "(1000::int) \<noteq> 0" by simp
  have c: "Some 0 \<notin> set [Some 1000, None, Some (2000::int), None, None]" by simp
  note row = get_statistics_row [OF a b, of "''Go''" "replicate 5 (JObj hh_vacancy_no_salary)"]
  from row have "\<exists>row. get_statistics ''Go'' (replicate 5 (JObj hh_vacancy_no_salary))
                [Some 1000, None, Some 2000, None, None] = Inr row
          \<and> language row = ''Go'' \<and> vacancies_found row = 5
          \<and> vacancies_processed row = 2 \<and> average_salary row = 1500"
    by (auto simp add: numeral_2_eq_2)
  with a b c show ?thesis by simp
qed

section \<open>Properties of the fetchers\<close>

lemma retry_trace_0: "retry_trace page 0 = []"
  by (simp add: retry_trace_def)

lemma retry_trace_Suc:
  "retry_trace page (Suc n) = [Request page, WarnConnection page, Sleep 30] @ retry_trace page n"
  by (simp add: retry_trace_def)

lemma retry_trace_requests:
  "length (filter (\<lambda>e. e = Request page) (retry_trace page n @ [Request page])) = n + 1"
  by (induction n) (simp_all add: retry_trace_0 retry_trace_Suc)

lemma retry_trace_sleeps:
  "filter (\<lambda>e. \<exists>t. e = Sleep t) (retry_trace page n @ [Request page]) = replicate n (Sleep 30)"
  by (induction n) (simp_all add: retry_trace_0 retry_trace_Suc)

text \<open>One unfolding of each loop, by the answer received.\<close>

lemma page_attempts_Body:
  "env k = Body items field \<Longrightarrow>
   page_attempts env k page pg vac log
     = Some (Inr (Suc k, field, vac @ items, log @ [Request page]))"
  by (subst page_attempts.simps) simp

lemma page_attempts_HTTPError:
  "env k = HTTPError \<Longrightarrow>
   page_attempts env k page pg vac log
     = Some (Inr (Suc k, pg, vac, log @ [Request page, WarnHTTP page]))"
  by (subst page_attempts.simps) simp

lemma page_attempts_Uncaught:
  "env k = Uncaught \<Longrightarrow> page_attempts env k page pg vac log = Some (Inl RequestFault)"
  by (subst page_attempts.simps) simp

lemma hh_pages_step:
  "page < np \<Longrightarrow> page_attempts env k page np vac log = Some (Inr (k', np', vac', log')) \<Longrightarrow>
   hh_pages env k page np vac log = hh_pages env k' (page + 1) np' vac' log'"
  by (subst hh_pages.simps) simp

lemma hh_pages_raise:
  "page < np \<Longrightarrow> page_attempts env k page np vac log = Some (Inl err) \<Longrightarrow>
   hh_pages env k page np vac log = Some (Inl err)"
  by (subst hh_pages.simps) simp

lemma hh_pages_exit:
  "\<not> page < np \<Longrightarrow> hh_pages env k page np vac log = Some (Inr (vac, log))"
  by (subst hh_pages.simps) simp

lemma sj_pages_step:
  "page_attempts env k page True vac log = Some (Inr (k', more', vac', log')) \<Longrightarrow>
   sj_pages env k page True vac log = sj_pages env k' (page + 1) more' vac' log'"
  by (subst sj_pages.simps) simp

lemma sj_pages_raise:
  "page_attempts env k page True vac log = Some (Inl err) \<Longrightarrow>
   sj_pages env k page True vac log = Some (Inl err)"
  by (subst sj_pages.simps) simp

lemma sj_pages_exit:
  "sj_pages env k page False vac log = Some (Inr (vac, log))"
  by (subst sj_pages.simps) simp

text \<open>Connection errors in a row keep the inner loop at the same page.\<close>

lemma page_attempts_retry:
  "(\<forall>i<n. env (k + i) = ConnectionError) \<Longrightarrow>
   page_attempts env k page pg vac log =
   page_attempts env (k + n) page pg vac (log @ retry_trace page n)"
proof (induction n arbitrary: k log)
  case 0
  then show ?case by (simp add: retry_trace_0)
next
  case (Suc n)
  from Suc.prems have here: "env k = ConnectionError"
    by (metis add.right_neutral zero_less_Suc)
  from Suc.prems have later: "\<forall>i<n. env (Suc k + i) = ConnectionError"
    by (metis Suc_less_eq add_Suc_shift)
  have "page_attempts env k page pg vac log =
        page_attempts env (Suc k) page pg vac
          (log @ [Request page, WarnConnection page, Sleep 30])"
    by (subst page_attempts.simps) (simp add: here)
  also have "\<dots> = page_attempts env (Suc k + n) page pg vac
        ((log @ [Request page, WarnConnection page, Sleep 30]) @ retry_trace page n)"
    by (rule Suc.IH [OF later])
  finally show ?case by (simp add: retry_trace_Suc)
qed

lemma page_attempts_retry_Body:
  assumes "\<forall>i<n. env (k + i) = ConnectionError" and "env (k + n) = Body items field"
  shows "page_attempts env k page pg vac log
       = Some (Inr (Suc (k + n), field, vac @ items, log @ retry_trace page n @ [Request page]))"
  using page_attempts_retry [OF assms(1)]
    page_attempts_Body [where env = env and k = "k + n", OF assms(2)]
  by simp

lemma page_attempts_retry_HTTPError:
  assumes "\<forall>i<n. env (k + i) = ConnectionError" and "env (k + n) = HTTPError"
  shows "page_attempts env k page pg vac log
       = Some (Inr (Suc (k + n), pg, vac,
                    log @ retry_trace page n @ [Request page, WarnHTTP page]))"
  using page_attempts_retry [OF assms(1)]
    page_attempts_HTTPError [where env = env and k = "k + n", OF assms(2)]
  by simp

lemma page_attempts_retry_Uncaught:
  assumes "\<forall>i<n. env (k + i) = ConnectionError" and "env (k + n) = Uncaught"
  shows "page_attempts env k page pg vac log = Some (Inl RequestFault)"
  using page_attempts_retry [OF assms(1)]
    page_attempts_Uncaught [where env = env and k = "k + n", OF assms(2)]
  by simp



text \<open>
  Claim C7. When the request of a page fails \<open>n\<close> times in a row with a connection
  error and then delivers a body, the inner loop makes \<open>n + 1\<close> requests, all for
  this page index, sleeps 30 seconds after each of the \<open>n\<close> failures, and appends the
  records of the body once; the outer loops go on at the next page index.
\<close>

theorem connection_error_retries_page:
  assumes "\<forall>i<n. env (k + i) = ConnectionError" and "env (k + n) = Body items pages"
    and "page < number_of_pages"
    and "\<forall>i<n. envb (k + i) = ConnectionError" and "envb (k + n) = Body objects more_field"
  shows "page_attempts env k page number_of_pages vac log
           = Some (Inr (Suc (k + n), pages, vac @ items,
                        log @ retry_trace page n @ [Request page]))
       \<and> hh_pages env k page number_of_pages vac log
           = hh_pages env (Suc (k + n)) (page + 1) pages (vac @ items)
               (log @ retry_trace page n @ [Request page])
       \<and> page_attempts envb k page True vac log
           = Some (Inr (Suc (k + n), more_field, vac @ objects,
                        log @ retry_trace page n @ [Request page]))
       \<and> sj_pages envb k page True vac log
           = sj_pages envb (Suc (k + n)) (page + 1) more_field (vac @ objects)
               (log @ retry_trace page n @ [Request page])
       \<and> length (filter (\<lambda>e. e = Request page) (retry_trace page n @ [Request page])) = n + 1
       \<and> filter (\<lambda>e. \<exists>t. e = Sleep t) (retry_trace page n @ [Request page])
           = replicate n (Sleep 30)"
proof -
  note hh = page_attempts_retry_Body [OF assms(1,2), of page number_of_pages vac log]
  note sj = page_attempts_retry_Body [OF assms(4,5), of page True vac log]
  from hh hh_pages_step [OF assms(3) hh] sj sj_pages_step [OF sj] show ?thesis
    by (simp only: retry_trace_requests retry_trace_sleeps simp_thms)
qed

theorem connection_error_retries_page_witness:
  "hh_two_failures 0 = ConnectionError \<and> hh_two_failures 1 = ConnectionError
   \<and> hh_two_failures 2 = Body [JObj [(''salary'', JNull)]] 1
   \<and> sj_two_failures 0 = ConnectionError \<and> sj_two_failures 1 = ConnectionError
   \<and> sj_two_failures 2 = Body [JObj [(''currency'', JStr ''rub'')]] False
   \<and> page_attempts hh_two_failures 0 0 1 [] []
         = Some (Inr (3, 1, [JObj [(''salary'', JNull)]],
              [Request 0, WarnConnection 0, Sleep 30,
               Request 0, WarnConnection 0, Sleep 30, Request 0]))
   \<and> page_attempts sj_two_failures 0 0 True [] []
         = Some (Inr (3, False, [JObj [(''currency'', JStr ''rub'')]],
              [Request 0, WarnConnection 0, Sleep 30,
               Request 0, WarnConnection 0, Sleep 30, Request 0]))"
proof -
  have a: "\<forall>i<2. hh_two_failures (0 + i) = ConnectionError"
    by (simp add: hh_two_failures_def)
  have b: "hh_two_failures (0 + 2) = Body [JObj [(''salary'', JNull)]] 1"
    by (simp add: hh_two_failures_def)
  have c: "(0::int) < 1" by simp
  have d: "\<forall>i<2. sj_two_failures (0 + i) = ConnectionError"
    by (simp add: sj_two_failures_def)
  have e: "sj_two_failures (0 + 2) = Body [JObj [(''currency'', JStr ''rub'')]] False"
    by (simp add: sj_two_failures_def)
  have t: "retry_trace 0 2 = [Request 0, WarnConnection 0, Sleep 30,
               Request 0, WarnConnection 0, Sleep 30]"
    by (simp add: retry_trace_def numeral_2_eq_2)
  note retry = connection_error_retries_page
    [where env = hh_two_failures and envb = sj_two_failures and k = 0 and n = 2
       and page = 0 and number_of_pages = 1 and vac = "[]" and log = "[]",
     OF a b c d e]
  from retry have hh: "page_attempts hh_two_failures 0 0 1 [] []
         = Some (Inr (3, 1, [JObj [(''salary'', JNull)]],
              [Request 0, WarnConnection 0, Sleep 30,
               Request 0, WarnConnection 0, Sleep 30, Request 0]))"
    by (simp add: t)
  from retry have sj: "page_attempts sj_two_failures 0 0 True [] []
         = Some (Inr (3, False, [JObj [(''currency'', JStr ''rub'')]],
              [Request 0, WarnConnection 0, Sleep 30,
               Request 0, WarnConnection 0, Sleep 30, Request 0]))"
    by (simp add: t)
  have "hh_two_failures 0 = ConnectionError" "hh_two_failures 1 = ConnectionError"
    "hh_two_failures 2 = Body [JObj [(''salary'', JNull)]] 1"
    by (simp_all add: hh_two_failures_def)
  moreover have "sj_two_failures 0 = ConnectionError" "sj_two_failures 1 = ConnectionError"
    "sj_two_failures 2 = Body [JObj [(''currency'', JStr ''rub'')]] False"
    by (simp_all add: sj_two_failures_def)
  ultimately show ?thesis
    using hh sj by blast
qed

text \<open>
  Claim C10. When the request of page 0 of hh.ru raises HTTPError (after any number
  of connection errors), \<^verbatim>\<open>download_vacancies_hh\<close> returns the empty list: the bound
  \<^verbatim>\<open>number_of_pages\<close> keeps its initial value 1, and page 0 is the only page index
  requested.
\<close>

theorem hh_first_page_http_error:
  assumes "\<forall>i<n. env i = ConnectionError" and "env n = HTTPError"
  shows "download_vacancies_hh env
       = Some (Inr ([], retry_trace 0 n @ [Request 0, WarnHTTP 0]))"
proof -
  have "page_attempts env 0 0 1 [] []
      = Some (Inr (Suc n, 1, [], retry_trace 0 n @ [Request 0, WarnHTTP 0]))"
    using page_attempts_retry_HTTPError [of n env 0 0 1 "[]" "[]"] assms by simp
  then have "hh_pages env 0 0 1 [] []
      = hh_pages env (Suc n) (0 + 1) 1 [] (retry_trace 0 n @ [Request 0, WarnHTTP 0])"
    by (intro hh_pages_step) simp_all
  then show ?thesis
    by (simp add: download_vacancies_hh_def hh_pages_exit)
qed

theorem hh_first_page_http_error_witness:
  "hh_http_error 0 = HTTPError
   \<and> download_vacancies_hh hh_http_error = Some (Inr ([], [Request 0, WarnHTTP 0]))"
proof -
  have a: "\<forall>i<0. hh_http_error i = ConnectionError" by simp
  have b: "hh_http_error 0 = HTTPError" by (simp add: hh_http_error_def)
  from hh_first_page_http_error [OF a b] b show ?thesis
    by (simp add: retry_trace_0)
qed

subsection \<open>Termination\<close>

lemma first_answer:
  "env (k + d :: nat) \<noteq> ConnectionError \<Longrightarrow>
   \<exists>j\<le>d. (\<forall>i<j. env (k + i) = ConnectionError) \<and> env (k + j) \<noteq> ConnectionError"
proof (induction d arbitrary: k)
  case 0
  then show ?case by simp
next
  case (Suc d)
  show ?case
  proof (cases "env k = ConnectionError")
    case False
    then show ?thesis by (intro exI [of _ 0]) simp
  next
    case True
    from Suc.prems have "env (Suc k + d) \<noteq> ConnectionError" by simp
    from Suc.IH [OF this] obtain j where j: "j \<le> d"
      "\<forall>i<j. env (Suc k + i) = ConnectionError" "env (Suc k + j) \<noteq> ConnectionError"
      by blast
    have "\<forall>i<Suc j. env (k + i) = ConnectionError"
    proof (intro allI impI)
      fix i assume "i < Suc j"
      then show "env (k + i) = ConnectionError"
        using True j(2) by (cases i) simp_all
    qed
    with j show ?thesis by (intro exI [of _ "Suc j"]) simp
  qed
qed

text \<open>
  The inner loop returns as soon as an answer is not a connection error, and what it
  returns is fixed by this answer.
\<close>

lemma page_attempts_returns:
  assumes "env (k + d) \<noteq> ConnectionError"
  shows "\<exists>j\<le>d. env (k + j) \<noteq> ConnectionError \<and>
    page_attempts env k page pg vac log =
      (case env (k + j) of
         Body items field \<Rightarrow>
           Some (Inr (Suc (k + j), field, vac @ items,
                      log @ retry_trace page j @ [Request page]))
       | HTTPError \<Rightarrow>
           Some (Inr (Suc (k + j), pg, vac,
                      log @ retry_trace page j @ [Request page, WarnHTTP page]))
       | ConnectionError \<Rightarrow> None
       | Uncaught \<Rightarrow> Some (Inl RequestFault))"
proof -
  from first_answer [where env = env and k = k and d = d, OF assms] obtain j where j: "j \<le> d"
    "\<forall>i<j. env (k + i) = ConnectionError" "env (k + j) \<noteq> ConnectionError"
    by blast
  show ?thesis
  proof (intro exI [of _ j] conjI j(1) j(3))
    show "page_attempts env k page pg vac log =
      (case env (k + j) of
         Body items field \<Rightarrow>
           Some (Inr (Suc (k + j), field, vac @ items,
                      log @ retry_trace page j @ [Request page]))
       | HTTPError \<Rightarrow>
           Some (Inr (Suc (k + j), pg, vac,
                      log @ retry_trace page j @ [Request page, WarnHTTP page]))
       | ConnectionError \<Rightarrow> None
       | Uncaught \<Rightarrow> Some (Inl RequestFault))"
      using j(3) page_attempts_retry_Body [OF j(2)] page_attempts_retry_HTTPError [OF j(2)]
        page_attempts_retry_Uncaught [OF j(2)]
      by (cases "env (k + j)") simp_all
  qed
qed

text \<open>
  hh.ru: every answer that is not a connection error moves the page counter one step
  towards a bound on the declared numbers of pages.
\<close>

lemma hh_pages_returns:
  assumes answers: "\<forall>k. \<exists>j\<ge>k. env j \<noteq> ConnectionError"
    and bounded: "\<forall>k items p. env k = Body items p \<longrightarrow> p \<le> B"
  shows "np \<le> B \<Longrightarrow> \<exists>r. hh_pages env k page np vac log = Some r"
proof (induction "nat (B - page)" arbitrary: k page np vac log rule: less_induct)
  case less
  show ?case
  proof (cases "page < np")
    case False
    then show ?thesis by (simp add: hh_pages_exit)
  next
    case True
    from answers obtain j where "j \<ge> k" "env j \<noteq> ConnectionError" by blast
    then have "env (k + (j - k)) \<noteq> ConnectionError" by simp
    from page_attempts_returns
      [where env = env and k = k and d = "j - k", OF this, of page np vac log]
    obtain i where i: "env (k + i) \<noteq> ConnectionError"
      "page_attempts env k page np vac log =
      (case env (k + i) of
         Body items field \<Rightarrow>
           Some (Inr (Suc (k + i), field, vac @ items,
                      log @ retry_trace page i @ [Request page]))
       | HTTPError \<Rightarrow>
           Some (Inr (Suc (k + i), np, vac,
                      log @ retry_trace page i @ [Request page, WarnHTTP page]))
       | ConnectionError \<Rightarrow> None
       | Uncaught \<Rightarrow> Some (Inl RequestFault))"
      by blast
    have smaller: "nat (B - (page + 1)) < nat (B - page)"
      using True less.prems by simp
    show ?thesis
    proof (cases "env (k + i)")
      case (Body items p)
      with bounded have "p \<le> B" by blast
      from less.hyps [OF smaller this] show ?thesis
        using i(2) Body True by (simp add: hh_pages_step)
    next
      case HTTPError
      from less.hyps [OF smaller less.prems] show ?thesis
        using i(2) HTTPError True by (simp add: hh_pages_step)
    next
      case ConnectionError
      with i(1) show ?thesis by simp
    next
      case Uncaught
      then show ?thesis using i(2) True by (simp add: hh_pages_raise)
    qed
  qed
qed

text \<open>
  superjob.ru: the requests are answered in order, so the loop has ended at the latest
  when it has received an answer with \<^verbatim>\<open>more\<close> false.
\<close>

lemma sj_pages_returns:
  "env (k + d) = Body items False \<Longrightarrow> \<exists>r. sj_pages env k page True vac log = Some r"
proof (induction d arbitrary: k page vac log rule: less_induct)
  case (less d)
  then have "env (k + d) \<noteq> ConnectionError" by simp
  from page_attempts_returns
    [where env = env and k = k and d = d, OF this, of page True vac log]
  obtain i where i: "i \<le> d" "env (k + i) \<noteq> ConnectionError"
      "page_attempts env k page True vac log =
      (case env (k + i) of
         Body items field \<Rightarrow>
           Some (Inr (Suc (k + i), field, vac @ items,
                      log @ retry_trace page i @ [Request page]))
       | HTTPError \<Rightarrow>
           Some (Inr (Suc (k + i), True, vac,
                      log @ retry_trace page i @ [Request page, WarnHTTP page]))
       | ConnectionError \<Rightarrow> None
       | Uncaught \<Rightarrow> Some (Inl RequestFault))"
    by blast
  have later: "i < d \<Longrightarrow> \<exists>r. sj_pages env (Suc (k + i)) page' True vac' log' = Some r"
    for page' vac' log'
  proof -
    assume "i < d"
    then have "d - Suc i < d" "env (Suc (k + i) + (d - Suc i)) = Body items False"
      using less.prems by simp_all
    then show ?thesis by (rule less.IH)
  qed
  show ?case
  proof (cases "env (k + i)")
    case (Body objects flag)
    show ?thesis
    proof (cases flag)
      case False
      then show ?thesis using i(3) Body by (simp add: sj_pages_step sj_pages_exit)
    next
      case True
      with Body less.prems have "i \<noteq> d" by auto
      with i(1) have "i < d" by simp
      from later [OF this] show ?thesis
        using i(3) Body True by (simp add: sj_pages_step)
    qed
  next
    case HTTPError
    with less.prems have "i \<noteq> d" by auto
    with i(1) have "i < d" by simp
    from later [OF this] show ?thesis
      using i(3) HTTPError by (simp add: sj_pages_step)
  next
    case ConnectionError
    with i(2) show ?thesis by simp
  next
    case Uncaught
    then show ?thesis using i(3) by (simp add: sj_pages_raise)
  qed
qed

text \<open>
  The pages that \<^verbatim>\<open>download_vacancies_hh\<close> requests when every body declares the same
  number of pages, and the number of requests of \<^verbatim>\<open>download_vacancies_sj\<close> up to the
  first body with \<^verbatim>\<open>more\<close> false.
\<close>

lemma requested_append: "requested (xs @ ys) = requested xs @ requested ys"
  by (induction xs rule: requested.induct) simp_all

lemma requested_retry_trace: "requested (retry_trace page n) = replicate n page"
  by (induction n) (simp_all add: retry_trace_0 retry_trace_Suc)

lemma hh_pages_visits:
  assumes answers: "\<forall>k. \<exists>j\<ge>k. env j \<noteq> ConnectionError"
    and same: "\<forall>k items p. env k = Body items p \<longrightarrow> p = P"
    and caught: "\<forall>k. env k \<noteq> Uncaught"
  shows "\<exists>vac' ext. hh_pages env k page P vac log = Some (Inr (vac', log @ ext))
           \<and> set (requested ext) = {page..<P} \<and> sorted (requested ext)"
proof (induction "nat (P - page)" arbitrary: k page vac log rule: less_induct)
  case less
  show ?case
  proof (cases "page < P")
    case False
    then have "hh_pages env k page P vac log = Some (Inr (vac, log @ []))"
      by (simp add: hh_pages_exit)
    moreover have "set (requested []) = {page..<P}" using False by simp
    ultimately show ?thesis by (intro exI [of _ vac] exI [of _ "[]"]) simp
  next
    case True
    from answers obtain j where "j \<ge> k" "env j \<noteq> ConnectionError" by blast
    then have "env (k + (j - k)) \<noteq> ConnectionError" by simp
    from page_attempts_returns
      [where env = env and k = k and d = "j - k", OF this, of page P vac log]
    obtain i where i: "env (k + i) \<noteq> ConnectionError"
      "page_attempts env k page P vac log =
      (case env (k + i) of
         Body items field \<Rightarrow>
           Some (Inr (Suc (k + i), field, vac @ items,
                      log @ retry_trace page i @ [Request page]))
       | HTTPError \<Rightarrow>
           Some (Inr (Suc (k + i), P, vac,
                      log @ retry_trace page i @ [Request page, WarnHTTP page]))
       | ConnectionError \<Rightarrow> None
       | Uncaught \<Rightarrow> Some (Inl RequestFault))"
      by blast
    have smaller: "nat (P - (page + 1)) < nat (P - page)"
      using True by simp
    have rest: "\<exists>vac' ext. hh_pages env k page P vac log = Some (Inr (vac', log @ ext))
           \<and> set (requested ext) = {page..<P} \<and> sorted (requested ext)"
      if step: "page_attempts env k page P vac log = Some (Inr (k1, P, vac1, log @ ext1))"
        and req: "requested ext1 = replicate (Suc i) page"
      for k1 vac1 ext1
    proof -
      from less.hyps [OF smaller, of k1 vac1 "log @ ext1"]
      obtain vac' ext' where run:
        "hh_pages env k1 (page + 1) P vac1 (log @ ext1) = Some (Inr (vac', (log @ ext1) @ ext'))"
        "set (requested ext') = {page + 1..<P}" "sorted (requested ext')"
        by blast
      have "hh_pages env k page P vac log = Some (Inr (vac', log @ (ext1 @ ext')))"
        using hh_pages_step [OF True step] run(1) by simp
      moreover have "set (requested (ext1 @ ext')) = {page..<P}"
        using True run(2) by (auto simp add: requested_append req)
      moreover have "sorted (requested (ext1 @ ext'))"
        using run(2,3) by (auto simp add: requested_append req sorted_append)
      ultimately show ?thesis by blast
    qed
    show ?thesis
    proof (cases "env (k + i)")
      case (Body items p)
      with same have "p = P" by blast
      with i(2) Body have "page_attempts env k page P vac log
          = Some (Inr (Suc (k + i), P, vac @ items, log @ (retry_trace page i @ [Request page])))"
        by simp
      then show ?thesis
        by (rule rest) (simp add: requested_append requested_retry_trace replicate_append_same)
    next
      case HTTPError
      with i(2) have "page_attempts env k page P vac log
          = Some (Inr (Suc (k + i), P, vac,
                       log @ (retry_trace page i @ [Request page, WarnHTTP page])))"
        by simp
      then show ?thesis
        by (rule rest) (simp add: requested_append requested_retry_trace replicate_append_same)
    next
      case ConnectionError
      with i(1) show ?thesis by simp
    next
      case Uncaught
      with caught show ?thesis by blast
    qed
  qed
qed

lemma sj_pages_reads:
  assumes last: "env (k + d) = Body objects False"
    and before: "\<forall>i<d. env (k + i) \<noteq> Uncaught \<and> (\<forall>items. env (k + i) \<noteq> Body items False)"
  shows "\<exists>vac0 ext. sj_pages env k page True vac log
             = Some (Inr (vac @ vac0 @ objects, log @ ext))
           \<and> length (requested ext) = d + 1"
  using assms
proof (induction d arbitrary: k page vac log rule: less_induct)
  case (less d)
  from less.prems(1) have "env (k + d) \<noteq> ConnectionError" by simp
  from page_attempts_returns
    [where env = env and k = k and d = d, OF this, of page True vac log]
  obtain i where i: "i \<le> d" "env (k + i) \<noteq> ConnectionError"
      "page_attempts env k page True vac log =
      (case env (k + i) of
         Body items field \<Rightarrow>
           Some (Inr (Suc (k + i), field, vac @ items,
                      log @ retry_trace page i @ [Request page]))
       | HTTPError \<Rightarrow>
           Some (Inr (Suc (k + i), True, vac,
                      log @ retry_trace page i @ [Request page, WarnHTTP page]))
       | ConnectionError \<Rightarrow> None
       | Uncaught \<Rightarrow> Some (Inl RequestFault))"
    by blast
  have rest: "\<exists>vac0 ext. sj_pages env k page True vac log
             = Some (Inr (vac @ vac0 @ objects, log @ ext))
           \<and> length (requested ext) = d + 1"
    if early: "i < d"
      and step: "page_attempts env k page True vac log
                   = Some (Inr (Suc (k + i), True, vac @ vac1, log @ ext1))"
      and req: "length (requested ext1) = Suc i"
    for vac1 ext1
  proof -
    from early have less_d: "d - Suc i < d" by simp
    from early less.prems(1)
    have last': "env (Suc (k + i) + (d - Suc i)) = Body objects False" by simp
    have before': "\<forall>j<d - Suc i. env (Suc (k + i) + j) \<noteq> Uncaught
        \<and> (\<forall>items. env (Suc (k + i) + j) \<noteq> Body items False)"
    proof (intro allI impI)
      fix j assume "j < d - Suc i"
      then have "Suc i + j < d" by simp
      with less.prems(2) have "env (k + (Suc i + j)) \<noteq> Uncaught
        \<and> (\<forall>items. env (k + (Suc i + j)) \<noteq> Body items False)" by blast
      then show "env (Suc (k + i) + j) \<noteq> Uncaught
        \<and> (\<forall>items. env (Suc (k + i) + j) \<noteq> Body items False)"
        by (simp add: add.assoc)
    qed
    from less.IH [OF less_d last' before', of "page + 1" "vac @ vac1" "log @ ext1"]
    obtain vac0 ext' where run:
      "sj_pages env (Suc (k + i)) (page + 1) True (vac @ vac1) (log @ ext1)
         = Some (Inr ((vac @ vac1) @ vac0 @ objects, (log @ ext1) @ ext'))"
      "length (requested ext') = d - Suc i + 1"
      by blast
    have "sj_pages env k page True vac log
        = Some (Inr (vac @ (vac1 @ vac0) @ objects, log @ (ext1 @ ext')))"
      using sj_pages_step [OF step] run(1) by simp
    moreover have "length (requested (ext1 @ ext')) = d + 1"
      using early run(2) req by (simp add: requested_append)
    ultimately show ?thesis by blast
  qed
  show ?case
  proof (cases "env (k + i)")
    case (Body items flag)
    show ?thesis
    proof (cases "i = d")
      case True
      with Body less.prems(1) have "items = objects" "flag = False" by simp_all
      with i(3) Body True
      have "page_attempts env k page True vac log
          = Some (Inr (Suc (k + d), False, vac @ objects,
                       log @ (retry_trace page d @ [Request page])))"
        by simp
      from sj_pages_step [OF this]
      have "sj_pages env k page True vac log
          = Some (Inr (vac @ [] @ objects, log @ (retry_trace page d @ [Request page])))"
        by (simp add: sj_pages_exit)
      moreover have "length (requested (retry_trace page d @ [Request page])) = d + 1"
        by (simp add: requested_append requested_retry_trace)
      ultimately show ?thesis by blast
    next
      case False
      with i(1) have early: "i < d" by simp
      with less.prems(2) Body have "flag" by (cases flag) auto
      with i(3) Body
      have "page_attempts env k page True vac log
          = Some (Inr (Suc (k + i), True, vac @ items,
                       log @ (retry_trace page i @ [Request page])))"
        by simp
      with early show ?thesis
        by (rule rest) (simp add: requested_append requested_retry_trace)
    qed
  next
    case HTTPError
    with less.prems(1) have "i \<noteq> d" by auto
    with i(1) have early: "i < d" by simp
    from i(3) HTTPError
    have "page_attempts env k page True vac log
        = Some (Inr (Suc (k + i), True, vac @ [],
                     log @ (retry_trace page i @ [Request page, WarnHTTP page])))"
      by simp
    with early show ?thesis
      by (rule rest) (simp add: requested_append requested_retry_trace)
  next
    case ConnectionError
    with i(2) show ?thesis by simp
  next
    case Uncaught
    with less.prems(1) have "i \<noteq> d" by auto
    with i(1) have "i < d" by simp
    with less.prems(2) Uncaught show ?thesis by blast
  qed
qed

subsection \<open>Where the loops do not end\<close>

text \<open>
  The inner loop does not return when from some request on every answer is a connection
  error. The loop of \<^verbatim>\<open>download_vacancies_sj\<close> does not return when every answer is
  an HTTP error: \<^verbatim>\<open>more_pages\<close> then keeps its initial value. The loop of
  \<^verbatim>\<open>download_vacancies_hh\<close> does not return when the declared number of pages
  stays ahead of the page counter.
\<close>

lemma page_attempts_no_result:
  assumes "page_attempts env k page pg vac log = Some y"
  shows "\<exists>j\<ge>k. env j \<noteq> ConnectionError"
  using assms
proof (induction env k page pg vac log y rule: page_attempts.raw_induct)
  case (1 f env k page pagination vacancies log y)
  show ?case
  proof (cases "env k = ConnectionError")
    case False
    then show ?thesis by (intro exI [of _ k]) simp
  next
    case True
    from True 1(2) have step: "f env (Suc k) page pagination vacancies
        (log @ [Request page, WarnConnection page, Sleep 30]) = Some y"
      by simp
    from True 1(3) have "page_attempts env (Suc k) page pagination vacancies
        (log @ [Request page, WarnConnection page, Sleep 30]) = Some y"
      by (subst (asm) page_attempts.simps) simp
    with step have "\<exists>j\<ge>Suc k. env j \<noteq> ConnectionError" by (rule 1(1))
    then obtain j where "j \<ge> Suc k" "env j \<noteq> ConnectionError" by (elim exE conjE)
    then show ?thesis by (intro exI [of _ j]) simp
  qed
qed (rule assms)

lemma page_attempts_connection_errors_forever:
  assumes "\<forall>j\<ge>k. env j = ConnectionError"
  shows "page_attempts env k page pg vac log = None"
proof (cases "page_attempts env k page pg vac log")
  case None
  then show ?thesis .
next
  case (Some y)
  from page_attempts_no_result [OF Some] assms show ?thesis by blast
qed

lemma sj_pages_no_result:
  assumes "sj_pages env k page more_pages vac log = Some y"
  shows "more_pages \<longrightarrow> (\<exists>j\<ge>k. env j \<noteq> HTTPError)"
  using assms
proof (induction env k page more_pages vac log y rule: sj_pages.raw_induct)
  case (1 f env k page more_pages vacancies log y)
  show ?case
  proof (intro impI)
    assume more_pages
    show "\<exists>j\<ge>k. env j \<noteq> HTTPError"
    proof (cases "env k = HTTPError")
      case False
      then show ?thesis by (intro exI [of _ k]) simp
    next
      case True
      note attempt = page_attempts_HTTPError [where env = env and k = k, OF True]
      from 1(2) \<open>more_pages\<close>
      have step: "f env (Suc k) (page + 1) True vacancies
              (log @ [Request page, WarnHTTP page]) = Some y"
        by (simp add: attempt)
      from 1(3) \<open>more_pages\<close>
      have "sj_pages env (Suc k) (page + 1) True vacancies
              (log @ [Request page, WarnHTTP page]) = Some y"
        by (simp add: sj_pages_step [OF attempt])
      with step have "True \<longrightarrow> (\<exists>j\<ge>Suc k. env j \<noteq> HTTPError)" by (rule 1(1))
      then obtain j where "j \<ge> Suc k" "env j \<noteq> HTTPError" by (elim impE exE conjE) simp
      then show ?thesis by (intro exI [of _ j]) simp
    qed
  qed
qed (rule assms)

lemma sj_pages_http_errors_forever:
  assumes "\<forall>j\<ge>k. env j = HTTPError"
  shows "sj_pages env k page True vac log = None"
proof (cases "sj_pages env k page True vac log")
  case None
  then show ?thesis .
next
  case (Some y)
  from sj_pages_no_result [OF Some] assms show ?thesis by blast
qed

lemma hh_pages_no_result:
  assumes "hh_pages env k page np vac log = Some y"
  shows "(\<forall>j. env j = Body [] (int j + 2)) \<longrightarrow> page = int k \<longrightarrow> page < np \<longrightarrow> False"
  using assms
proof (induction env k page np vac log y rule: hh_pages.raw_induct)
  case (1 f env k page number_of_pages vacancies log y)
  show ?case
  proof (intro impI)
    assume grow: "\<forall>j. env j = Body [] (int j + 2)" and at: "page = int k"
      and inside: "page < number_of_pages"
    from grow have here: "env k = Body [] (int k + 2)" by blast
    note attempt = page_attempts_Body [where env = env and k = k, OF here]
    from 1(2) inside
    have step: "f env (Suc k) (page + 1) (int k + 2) vacancies (log @ [Request page]) = Some y"
      by (simp add: attempt)
    from 1(3) inside
    have "hh_pages env (Suc k) (page + 1) (int k + 2) vacancies (log @ [Request page]) = Some y"
      using hh_pages_step [OF inside attempt] by simp
    with step have "(\<forall>j. env j = Body [] (int j + 2)) \<longrightarrow> page + 1 = int (Suc k)
        \<longrightarrow> page + 1 < int k + 2 \<longrightarrow> False"
      by (rule 1(1))
    with grow at show False by simp
  qed
qed (rule assms)

lemma hh_growing_pages_forever:
  "download_vacancies_hh hh_growing_pages = None"
proof (cases "download_vacancies_hh hh_growing_pages")
  case None
  then show ?thesis .
next
  case (Some y)
  then have "hh_pages hh_growing_pages 0 0 1 [] [] = Some y"
    by (simp add: download_vacancies_hh_def)
  from hh_pages_no_result [OF this] show ?thesis
    by (simp add: hh_growing_pages_def)
qed

lemma counterexample_providers_answer:
  "hh_growing_pages k \<noteq> ConnectionError \<and> sj_always_http_error k \<noteq> ConnectionError"
  by (simp add: hh_growing_pages_def sj_always_http_error_def)

subsection \<open>Where the loops stop\<close>

text \<open>
  Claim C8 reads: when every request is in the end answered otherwise than by a
  connection error, the loops terminate. This fails for both fetchers, with providers
  that answer every request at once: \<^verbatim>\<open>download_vacancies_hh\<close> does not return from
  a provider that declares \<open>k + 2\<close> pages in its \<open>k\<close>-th answer, and
  \<^verbatim>\<open>download_vacancies_sj\<close> does not return from a provider that answers every
  request with an HTTP error.
\<close>

theorem fetch_loops_counterexample:
  "download_vacancies_hh hh_growing_pages = None
   \<and> download_vacancies_sj sj_always_http_error = None"
  by (simp add: hh_growing_pages_forever download_vacancies_sj_def
      sj_pages_http_errors_forever sj_always_http_error_def)

text \<open>
  Claim C8 as amended. hh.ru: when no request is answered by connection errors for
  ever, every answer is a body, an HTTP error or a connection error, every body
  declares the same number \<open>P\<close> of pages, and page 0 is delivered,
  \<^verbatim>\<open>download_vacancies_hh\<close> returns its list after requesting exactly the page
  indices \<open>0, \<dots>, max 1 P - 1\<close>, in increasing order. superjob.ru: when the
  answer to request \<open>k\<close> is the first body with \<^verbatim>\<open>more\<close> false, and the answers
  before it are bodies, HTTP errors or connection errors,
  \<^verbatim>\<open>download_vacancies_sj\<close> returns its list after exactly \<open>k + 1\<close> requests, the
  records of that body being the last ones appended. Nothing is assumed about the
  records, so both hold when every page is empty.
\<close>

theorem fetch_loops_stop:
  "((\<forall>k. \<exists>j\<ge>k. env j \<noteq> ConnectionError) \<and> (\<forall>k. env k \<noteq> Uncaught)
      \<and> (\<forall>k items p. env k = Body items p \<longrightarrow> p = P)
      \<and> (\<forall>i<n. env i = ConnectionError) \<and> env n = Body first_items P
      \<longrightarrow> (\<exists>vac log. download_vacancies_hh env = Some (Inr (vac, log))
             \<and> set (requested log) = {0..<max 1 P} \<and> sorted (requested log)))
   \<and> (envb k = Body objects False
      \<and> (\<forall>i<k. envb i \<noteq> Uncaught \<and> (\<forall>items. envb i \<noteq> Body items False))
      \<longrightarrow> (\<exists>vac0 log. download_vacancies_sj envb = Some (Inr (vac0 @ objects, log))
             \<and> length (requested log) = k + 1))"
proof (intro conjI impI)
  assume a: "(\<forall>k. \<exists>j\<ge>k. env j \<noteq> ConnectionError) \<and> (\<forall>k. env k \<noteq> Uncaught)
      \<and> (\<forall>k items p. env k = Body items p \<longrightarrow> p = P)
      \<and> (\<forall>i<n. env i = ConnectionError) \<and> env n = Body first_items P"
  then have first: "\<forall>i<n. env (0 + i) = ConnectionError" "env (0 + n) = Body first_items P"
    by simp_all
  let ?log0 = "retry_trace 0 n @ [Request 0]"
  from page_attempts_retry_Body [where env = env and k = 0, OF first, of 0 1 "[]" "[]"]
  have "page_attempts env 0 0 1 [] [] = Some (Inr (Suc n, P, first_items, ?log0))"
    by simp
  then have start: "hh_pages env 0 0 1 [] [] = hh_pages env (Suc n) (0 + 1) P first_items ?log0"
    by (intro hh_pages_step) simp_all
  from a hh_pages_visits [of env P "Suc n" 1 first_items ?log0]
  obtain vac ext where run: "hh_pages env (Suc n) 1 P first_items ?log0 = Some (Inr (vac, ?log0 @ ext))"
    "set (requested ext) = {1..<P}" "sorted (requested ext)"
    by blast
  have "download_vacancies_hh env = Some (Inr (vac, ?log0 @ ext))"
    using start run(1) by (simp add: download_vacancies_hh_def)
  moreover have "set (requested (?log0 @ ext)) = {0..<max 1 P}"
    using run(2) by (auto simp add: requested_append requested_retry_trace)
  moreover have "sorted (requested (?log0 @ ext))"
    using run(2,3) by (auto simp add: requested_append requested_retry_trace sorted_append)
  ultimately show "\<exists>vac log. download_vacancies_hh env = Some (Inr (vac, log))
             \<and> set (requested log) = {0..<max 1 P} \<and> sorted (requested log)"
    by blast
next
  assume b: "envb k = Body objects False
      \<and> (\<forall>i<k. envb i \<noteq> Uncaught \<and> (\<forall>items. envb i \<noteq> Body items False))"
  then have "envb (0 + k) = Body objects False"
    "\<forall>i<k. envb (0 + i) \<noteq> Uncaught \<and> (\<forall>items. envb (0 + i) \<noteq> Body items False)"
    by simp_all
  from sj_pages_reads [where env = envb and k = 0 and d = k, OF this, of 0 "[]" "[]"]
  show "\<exists>vac0 log. download_vacancies_sj envb = Some (Inr (vac0 @ objects, log))
             \<and> length (requested log) = k + 1"
    by (simp add: download_vacancies_sj_def)
qed

theorem fetch_loops_stop_witness:
  "hh_three_pages 0 = ConnectionError
   \<and> hh_three_pages 1 = Body [JObj [(''salary'', JNull)]] 3
   \<and> sj_three_pages 3 = Body [] False
   \<and> (\<exists>vac log. download_vacancies_hh hh_three_pages = Some (Inr (vac, log))
         \<and> set (requested log) = {0..<3} \<and> sorted (requested log))
   \<and> (\<exists>vac0 log. download_vacancies_sj sj_three_pages = Some (Inr (vac0 @ [], log))
         \<and> length (requested log) = 4)"
proof -
  have answers: "\<forall>k. \<exists>j\<ge>k. hh_three_pages j \<noteq> ConnectionError"
  proof
    fix k
    show "\<exists>j\<ge>k. hh_three_pages j \<noteq> ConnectionError"
      by (rule exI [of _ "k + 3"]) (simp add: hh_three_pages_def)
  qed
  have caught: "\<forall>k. hh_three_pages k \<noteq> Uncaught"
    by (simp add: hh_three_pages_def)
  have same: "\<forall>k items p. hh_three_pages k = Body items p \<longrightarrow> p = 3"
    by (simp add: hh_three_pages_def)
  have first: "\<forall>i<1. hh_three_pages i = ConnectionError"
    by (simp add: hh_three_pages_def)
  have zero: "hh_three_pages 0 = ConnectionError"
    by (simp add: hh_three_pages_def)
  have one: "hh_three_pages 1 = Body [JObj [(''salary'', JNull)]] 3"
    by (simp add: hh_three_pages_def)
  have last: "sj_three_pages 3 = Body [] False"
    by (simp add: sj_three_pages_def)
  have before: "\<forall>i<3. sj_three_pages i \<noteq> Uncaught
      \<and> (\<forall>items. sj_three_pages i \<noteq> Body items False)"
    by (simp add: sj_three_pages_def)
  note stop = fetch_loops_stop
    [where env = hh_three_pages and P = 3 and n = 1
       and first_items = "[JObj [(''salary'', JNull)]]"
       and envb = sj_three_pages and k = 3 and objects = "[]"]
  from stop answers caught same first one last before
  have "(\<exists>vac log. download_vacancies_hh hh_three_pages = Some (Inr (vac, log))
         \<and> set (requested log) = {0..<max 1 3} \<and> sorted (requested log))"
    and "(\<exists>vac0 log. download_vacancies_sj sj_three_pages = Some (Inr (vac0 @ [], log))
         \<and> length (requested log) = 3 + 1)"
    by blast+
  with zero one last show ?thesis by simp
qed

end
